theory Spec2Isabelle
  imports Main
begin

section \<open>The data model of \<open>src/index.ts\<close>\<close>

text \<open>
  A string is a list of code units of any type \<open>'c\<close>: the source only compares
  them. Positions in a string are natural numbers (they come from \<open>indexOf\<close>), and
  the two computed scores are integers, since the source obtains them by subtraction.
  A character limit is the object literal of the source as an association list; its
  keys are single characters, as the parameter's name and documentation say.
\<close>

record MatchResult =
  offset :: nat
  positions :: "nat list"
  extraChars :: int
  trailingChars :: int

datatype error = TypeError

type_synonym 'c CharacterLimit = "('c \<times> int) list"

text \<open>
  \<open>String.prototype.toLowerCase\<close> belongs to the engine, not to the repository, and
  its Unicode tables are not modelled: every function of the source that lowercases
  takes the mapping as its first argument \<open>table\<close>, any function on strings. The
  lowercased string may be longer than the original (U+0130 becomes \<open>i\<close> followed by
  U+0307), and nothing here assumes otherwise. The one fact built in is that the
  engine's function returns the empty string for the empty string only: a table that
  would empty a string is not applied to it.
\<close>

definition toLowerCase :: "('c list \<Rightarrow> 'c list) \<Rightarrow> 'c list \<Rightarrow> 'c list" where
  "toLowerCase table s = (if s = [] \<or> table s = [] then s else table s)"

text \<open>
  \<open>String.prototype.substring(start, end)\<close>: both indices are clamped to the
  length and swapped when \<open>start > end\<close>.
\<close>

definition substring :: "'c list \<Rightarrow> nat \<Rightarrow> nat \<Rightarrow> 'c list" where
  "substring s a b =
     (let st = min (min a b) (length s); en = min (max a b) (length s)
      in take (en - st) (drop st s))"

text \<open>
  \<open>String.prototype.indexOf(character, startIndex)\<close> for a one-character needle:
  the first position at or after \<open>startIndex\<close> holding the character; \<open>None\<close>
  stands for the source's \<open>-1\<close>.
\<close>

function indexOf :: "'c list \<Rightarrow> 'c \<Rightarrow> nat \<Rightarrow> nat option" where
  "indexOf target character startIndex =
     (if startIndex < length target
      then (if target ! startIndex = character then Some startIndex
            else indexOf target character (startIndex + 1))
      else None)"
  by pat_completeness auto
termination
  by (relation "measure (\<lambda>(t, c, s). length t - s)") auto

declare indexOf.simps [simp del]

lemma indexOf_bounds:
  "indexOf target character startIndex = Some m \<Longrightarrow> startIndex \<le> m \<and> m < length target"
proof (induction target character startIndex rule: indexOf.induct)
  case (1 target character startIndex)
  show ?case
  proof (cases "startIndex < length target")
    case False
    with "1.prems" show ?thesis by (simp add: indexOf.simps)
  next
    case True
    show ?thesis
    proof (cases "target ! startIndex = character")
      case True
      with \<open>startIndex < length target\<close> "1.prems" show ?thesis
        by (simp add: indexOf.simps)
    next
      case False
      with \<open>startIndex < length target\<close> "1.prems"
      have "indexOf target character (startIndex + 1) = Some m"
        by (simp add: indexOf.simps)
      with "1.IH" [OF \<open>startIndex < length target\<close> False] show ?thesis by simp
    qed
  qed
qed

subsection \<open>\<open>findOccurences\<close>\<close>

function findOccurences :: "'c list \<Rightarrow> 'c \<Rightarrow> nat \<Rightarrow> nat list \<Rightarrow> nat list" where
  "findOccurences target character startIndex result =
     (case indexOf target character startIndex of
        Some matchIndex \<Rightarrow>
          findOccurences target character (matchIndex + 1) (result @ [matchIndex])
      | None \<Rightarrow> result)"
  by pat_completeness auto
termination
  by (relation "measure (\<lambda>(t, c, s, r). length t - s)") (auto dest: indexOf_bounds)

declare findOccurences.simps [simp del]

subsection \<open>\<open>calculateExtraChars\<close>\<close>

text \<open>The loop of \<open>calculateExtraChars\<close> over the positions after the first.\<close>

fun calculateLoop :: "nat list \<Rightarrow> int \<Rightarrow> nat \<Rightarrow> int" where
  "calculateLoop [] totalCharsInBetween previousCharPosition = totalCharsInBetween"
| "calculateLoop (position # rest) totalCharsInBetween previousCharPosition =
     calculateLoop rest
       (totalCharsInBetween + (int position - int previousCharPosition - 1)) position"

definition calculateExtraChars :: "nat list \<Rightarrow> int" where
  "calculateExtraChars characterPositions =
     (case characterPositions of
        [] \<Rightarrow> 0
      | first # rest \<Rightarrow> calculateLoop rest 0 first)"

subsection \<open>\<open>sort\<close>\<close>

text \<open>The exported comparator \<open>sort\<close>; its result is \<open>-1\<close>, \<open>0\<close> or \<open>1\<close>.\<close>

definition sortResults :: "MatchResult \<Rightarrow> MatchResult \<Rightarrow> int" where
  "sortResults a b =
     (if extraChars a \<noteq> extraChars b then (if extraChars a < extraChars b then - 1 else 1)
      else if offset a \<noteq> offset b then (if offset a < offset b then - 1 else 1)
      else if trailingChars a \<noteq> trailingChars b
        then (if trailingChars a < trailingChars b then - 1 else 1)
      else 0)"

subsection \<open>\<open>hasLessThanMaximumCharacters\<close>\<close>

text \<open>
  The loop \<open>for (const character in charLimits)\<close> over the keys of the object. The
  limit is looked up under the lowercased key; a key that is absent gives
  \<open>undefined\<close>, and a comparison with \<open>undefined\<close> is false. The keys are
  single characters, so a lowercased key of several code units is no key of the
  object: its occurrences are counted, the limit is \<open>undefined\<close> and the loop goes
  on (the lowercased key is not empty, so the count returns). With no found position
  both arguments of \<open>substring\<close> are \<open>undefined\<close> and the substring is the
  whole target.
\<close>

fun limitLoop ::
  "('c list \<Rightarrow> 'c list) \<Rightarrow> 'c list \<Rightarrow> nat list \<Rightarrow> 'c CharacterLimit \<Rightarrow> 'c list \<Rightarrow> bool" where
  "limitLoop table target foundChars charLimits [] = True"
| "limitLoop table target foundChars charLimits (character # keys) =
     (let characterLowerCased = toLowerCase table [character];
          subString = (case foundChars of
                         [] \<Rightarrow> target
                       | _ # _ \<Rightarrow> substring target (hd foundChars) (last foundChars))
      in if (case characterLowerCased of
               [lowerCased] \<Rightarrow>
                 (case map_of charLimits lowerCased of
                    None \<Rightarrow> False
                  | Some limit \<Rightarrow>
                      int (length (findOccurences subString lowerCased 0 [])) > limit)
             | _ \<Rightarrow> False)
         then False
         else limitLoop table target foundChars charLimits keys)"

definition hasLessThanMaximumCharacters ::
  "('c list \<Rightarrow> 'c list) \<Rightarrow> 'c list \<Rightarrow> nat list \<Rightarrow> 'c CharacterLimit \<Rightarrow> bool" where
  "hasLessThanMaximumCharacters table target foundChars charLimits =
     limitLoop table target foundChars charLimits (map fst charLimits)"

subsection \<open>\<open>getPossibleCombinations\<close>\<close>

text \<open>
  A loop whose body may throw: the fold stops at the first error.
\<close>

fun foldE :: "('a \<Rightarrow> 'b \<Rightarrow> error + 'b) \<Rightarrow> 'a list \<Rightarrow> 'b \<Rightarrow> error + 'b" where
  "foldE f [] acc = Inr acc"
| "foldE f (x # xs) acc = (case f x acc of Inl e \<Rightarrow> Inl e | Inr acc' \<Rightarrow> foldE f xs acc')"

lemma foldE_cong [fundef_cong]:
  "xs = ys \<Longrightarrow> a = b \<Longrightarrow> (\<And>x acc. x \<in> set ys \<Longrightarrow> f x acc = g x acc)
     \<Longrightarrow> foldE f xs a = foldE g ys b"
proof (induction xs arbitrary: ys a b)
  case Nil
  then show ?case by simp
next
  case (Cons x xs)
  then obtain ys' where ys: "ys = x # ys'" "xs = ys'" by auto
  have "f x a = g x a" using Cons.prems ys by simp
  moreover have "foldE f xs acc = foldE g ys' acc" for acc
    using Cons.IH [of ys' acc acc] Cons.prems(3) ys by simp
  ultimately show ?case using Cons.prems(2) ys by (simp split: sum.splits)
qed

text \<open>
  The array \<open>result\<close> and the arrays it holds are mutated in place; the model
  passes the array of arrays along and returns it. No array is held twice (each is
  created by \<open>[occurence]\<close>), so a list of lists stands for the heap. Reading
  \<open>characterPositions[depth]\<close> past the end gives \<open>undefined\<close>, and
  iterating over it throws a \<open>TypeError\<close>. \<open>forEach\<close> visits the indices
  below the length the array had when the loop began and reads each element when it
  gets there.
\<close>

function getPossibleCombinations ::
  "nat list list \<Rightarrow> nat list list \<Rightarrow> nat \<Rightarrow> error + nat list list" where
  "getPossibleCombinations characterPositions result depth =
     (if length characterPositions \<le> depth then Inl TypeError
      else
        let currentOccurence = characterPositions ! depth in
        if depth = 0 then
          (let result1 = result @ map (\<lambda>occurence. [occurence]) currentOccurence in
           case (if length characterPositions > 1
                 then getPossibleCombinations characterPositions result1 (depth + 1)
                 else Inr result1) of
             Inl e \<Rightarrow> Inl e
           | Inr result2 \<Rightarrow>
               Inr (filter (\<lambda>s. length s = length characterPositions) result2))
        else
          foldE (\<lambda>occurence res.
              foldE (\<lambda>i r.
                  if i < length r \<and> depth = length (r ! i) \<and> r ! i \<noteq> []
                     \<and> last (r ! i) < occurence
                  then (let r' = r[i := r ! i @ [occurence]]
                        in if length characterPositions - 1 > depth
                           then getPossibleCombinations characterPositions r' (depth + 1)
                           else Inr r')
                  else Inr r)
                [0..<length res] res)
            currentOccurence result)"
  by pat_completeness auto
termination
  by (relation "measure (\<lambda>(cp, r, d). length cp - d)") auto

declare getPossibleCombinations.simps [simp del]

subsection \<open>\<open>matchFuzzy\<close>\<close>

text \<open>
  The loop that builds \<open>occurencesPerChar\<close>; \<open>None\<close> is the early
  \<open>return null\<close>.
\<close>

function occurencesLoop ::
  "'c list \<Rightarrow> 'c list \<Rightarrow> nat \<Rightarrow> nat list list \<Rightarrow> nat list list option" where
  "occurencesLoop targetLowerCased queryLowerCased i occurencesPerChar =
     (if i < length queryLowerCased then
        (let character = queryLowerCased ! i;
             startIndex = (if occurencesPerChar \<noteq> []
                           then hd (occurencesPerChar ! (i - 1)) + 1 else 0);
             occurences = findOccurences targetLowerCased character startIndex []
         in if occurences = [] then None
            else occurencesLoop targetLowerCased queryLowerCased (i + 1)
                   (occurencesPerChar @ [occurences]))
      else Some occurencesPerChar)"
  by pat_completeness auto
termination
  by (relation "measure (\<lambda>(t, q, i, opc). length q - i)") auto

declare occurencesLoop.simps [simp del]

text \<open>
  The loop over \<open>combinations\<close> with its running \<open>bestCombination\<close>;
  returning without looking at the rest is the \<open>break\<close>.
\<close>

fun selectLoop ::
  "('c list \<Rightarrow> 'c list) \<Rightarrow> 'c list \<Rightarrow> 'c CharacterLimit \<Rightarrow> nat list list
     \<Rightarrow> (int \<times> nat list) option \<Rightarrow> (int \<times> nat list) option" where
  "selectLoop table targetLowerCased characterLimit [] bestCombination = bestCombination"
| "selectLoop table targetLowerCased characterLimit (combination # rest) bestCombination =
     (if \<not> hasLessThanMaximumCharacters table targetLowerCased combination characterLimit
      then selectLoop table targetLowerCased characterLimit rest bestCombination
      else
        let extraCharCount = calculateExtraChars combination;
            bestCombination' =
              (case bestCombination of
                 None \<Rightarrow> (extraCharCount, combination)
               | Some best \<Rightarrow> if fst best > extraCharCount then (extraCharCount, combination) else best)
        in if fst bestCombination' = 0 then Some bestCombination'
           else selectLoop table targetLowerCased characterLimit rest
                  (Some bestCombination'))"

definition matchFuzzy ::
  "('c list \<Rightarrow> 'c list) \<Rightarrow> 'c list \<Rightarrow> 'c list \<Rightarrow> 'c CharacterLimit
     \<Rightarrow> error + MatchResult option" where
  "matchFuzzy table query target characterLimit =
     (if target = [] \<or> query = [] \<or> length target < length query then Inr None
      else
        let queryLowerCased = toLowerCase table query;
            targetLowerCased = toLowerCase table target
        in case occurencesLoop targetLowerCased queryLowerCased 0 [] of
             None \<Rightarrow> Inr None
           | Some occurencesPerChar \<Rightarrow>
               (case getPossibleCombinations occurencesPerChar [] 0 of
                  Inl e \<Rightarrow> Inl e
                | Inr combinations \<Rightarrow>
                    (case selectLoop table targetLowerCased characterLimit combinations
                            None of
                       None \<Rightarrow> Inr None
                     | Some bestCombination \<Rightarrow>
                         Inr (Some \<lparr>offset = hd (snd bestCombination),
                                     positions = snd bestCombination,
                                     extraChars = fst bestCombination,
                                     trailingChars =
                                       int (length target)
                                       - (int (last (snd bestCombination)) + 1)\<rparr>))))"

section \<open>Auxiliary notions for the proofs\<close>

text \<open>
  What \<open>getPossibleCombinations\<close> does to one array of \<open>result\<close>: going through
  the remaining occurrence lists, the chain takes from each list the first occurrence
  that is greater than its last position, and stops for good at the first list that
  has none.
\<close>

fun extendChain :: "nat list list \<Rightarrow> nat list \<Rightarrow> nat list" where
  "extendChain [] chain = chain"
| "extendChain (occurences # rest) chain =
     (case find (\<lambda>occurence. last chain < occurence) occurences of
        None \<Rightarrow> chain
      | Some occurence \<Rightarrow> extendChain rest (chain @ [occurence]))"

definition extendAt :: "nat list list \<Rightarrow> nat \<Rightarrow> nat \<Rightarrow> nat list \<Rightarrow> nat list" where
  "extendAt cp d occurence chain =
     (if length chain = d \<and> last chain < occurence
      then extendChain (drop (Suc d) cp) (chain @ [occurence]) else chain)"

definition stuckAbove :: "nat list list \<Rightarrow> nat \<Rightarrow> nat list list \<Rightarrow> bool" where
  "stuckAbove cp d r \<longleftrightarrow>
     (\<forall>chain \<in> set r. d < length chain \<longrightarrow> extendChain (drop (length chain) cp) chain = chain)"

text \<open>
  A complete candidate chain in the sense of the specification: one position from each
  occurrence list, in the order of the lists, strictly increasing.
\<close>

definition completeChain :: "nat list list \<Rightarrow> nat list \<Rightarrow> bool" where
  "completeChain cp chain \<longleftrightarrow>
     list_all2 (\<lambda>position occurences. position \<in> set occurences) chain cp
     \<and> sorted_wrt (<) chain"

text \<open>
  The occurrence indexer in the words of the specification: the lower bound of query
  character \<open>0\<close> is \<open>0\<close>, the lower bound of a later character is one more than
  the first recorded occurrence of the character before it (and there is none when an
  earlier character has no occurrence), and the occurrence list of a character holds
  the positions of the target at or after its lower bound that carry the character.
\<close>

fun lowerBound :: "'c list \<Rightarrow> 'c list \<Rightarrow> nat \<Rightarrow> nat option" where
  "lowerBound target query 0 = Some 0"
| "lowerBound target query (Suc i) =
     (case lowerBound target query i of
        None \<Rightarrow> None
      | Some bound \<Rightarrow>
          (case filter (\<lambda>p. target ! p = query ! i) [bound..<length target] of
             [] \<Rightarrow> None
           | first # _ \<Rightarrow> Some (first + 1)))"

definition occurrenceList :: "'c list \<Rightarrow> 'c list \<Rightarrow> nat \<Rightarrow> nat list" where
  "occurrenceList target query i =
     (case lowerBound target query i of
        None \<Rightarrow> []
      | Some bound \<Rightarrow> filter (\<lambda>p. target ! p = query ! i) [bound..<length target])"

definition zeroOccurrences :: "'c list \<Rightarrow> 'c list \<Rightarrow> bool" where
  "zeroOccurrences target query \<longleftrightarrow>
     list_ex (\<lambda>i. occurrenceList target query i = []) [0..<length query]"

definition occurrenceLists :: "'c list \<Rightarrow> 'c list \<Rightarrow> nat list list" where
  "occurrenceLists target query = map (occurrenceList target query) [0..<length query]"

text \<open>
  A lowercasing for the examples, on strings of code units as numbers: the letters
  \<open>A\<close> to \<open>Z\<close> and the Latin-1 capitals move up by \<open>32\<close>, U+0130 (\<open>304\<close>)
  becomes \<open>i\<close> followed by U+0307 (\<open>105\<close>, \<open>775\<close>), and every other code unit
  stays. On the strings of the examples it is \<open>String.prototype.toLowerCase\<close>.
\<close>

definition lowerCaseUnit :: "nat \<Rightarrow> nat list" where
  "lowerCaseUnit u =
     (if (65 \<le> u \<and> u \<le> 90) \<or> (192 \<le> u \<and> u \<le> 222 \<and> u \<noteq> 215) then [u + 32]
      else if u = 304 then [105, 775]
      else [u])"

definition sampleTable :: "nat list \<Rightarrow> nat list" where
  "sampleTable s = concat (map lowerCaseUnit s)"

text \<open>The code units of a string literal.\<close>

definition units :: "string \<Rightarrow> nat list" where
  "units s = map of_char s"

section \<open>Facts about \<open>indexOf\<close> and \<open>findOccurences\<close>\<close>

lemma indexOf_None_iff:
  "indexOf target character startIndex = None \<longleftrightarrow>
     (\<forall>p. startIndex \<le> p \<and> p < length target \<longrightarrow> target ! p \<noteq> character)"
proof (induction target character startIndex rule: indexOf.induct)
  case (1 target character startIndex)
  show ?case
  proof (cases "startIndex < length target")
    case False
    then show ?thesis by (auto simp: indexOf.simps)
  next
    case inside: True
    show ?thesis
    proof (cases "target ! startIndex = character")
      case True
      with inside show ?thesis by (auto simp: indexOf.simps)
    next
      case False
      have "(\<forall>p. startIndex + 1 \<le> p \<and> p < length target \<longrightarrow> target ! p \<noteq> character)
            \<longleftrightarrow> (\<forall>p. startIndex \<le> p \<and> p < length target \<longrightarrow> target ! p \<noteq> character)"
        using False by (metis Suc_eq_plus1 Suc_leI le_neq_implies_less Suc_leD)
      with "1.IH" [OF inside False] inside False show ?thesis
        by (simp add: indexOf.simps)
    qed
  qed
qed

lemma indexOf_Some_first:
  "indexOf target character startIndex = Some m \<Longrightarrow>
     target ! m = character \<and> (\<forall>p. startIndex \<le> p \<and> p < m \<longrightarrow> target ! p \<noteq> character)"
proof (induction target character startIndex rule: indexOf.induct)
  case (1 target character startIndex)
  from "1.prems" have inside: "startIndex < length target"
    by (simp add: indexOf.simps split: if_splits)
  show ?case
  proof (cases "target ! startIndex = character")
    case True
    with inside "1.prems" show ?thesis by (auto simp: indexOf.simps)
  next
    case False
    with inside "1.prems" have "indexOf target character (startIndex + 1) = Some m"
      by (simp add: indexOf.simps)
    from "1.IH" [OF inside False this] False show ?thesis
      by (metis Suc_eq_plus1 Suc_leI le_neq_implies_less)
  qed
qed

lemma findOccurences_filter:
  "findOccurences target character startIndex result =
     result @ filter (\<lambda>p. target ! p = character) [startIndex..<length target]"
proof (induction target character startIndex result rule: findOccurences.induct)
  case (1 target character startIndex result)
  show ?case
  proof (cases "indexOf target character startIndex")
    case None
    then have "filter (\<lambda>p. target ! p = character) [startIndex..<length target] = []"
      by (simp add: indexOf_None_iff filter_empty_conv)
    with None show ?thesis by (simp add: findOccurences.simps)
  next
    case (Some m)
    from indexOf_bounds [OF Some] have b: "startIndex \<le> m" "m < length target" by simp_all
    from indexOf_Some_first [OF Some]
    have hit: "target ! m = character"
      and before: "\<forall>p. startIndex \<le> p \<and> p < m \<longrightarrow> target ! p \<noteq> character" by simp_all
    have split: "[startIndex..<length target] = [startIndex..<m] @ m # [m + 1..<length target]"
      using b by (metis Suc_eq_plus1 le_Suc_ex less_imp_le_nat upt_add_eq_append upt_conv_Cons)
    have "filter (\<lambda>p. target ! p = character) [startIndex..<m] = []"
      using before by (simp add: filter_empty_conv)
    then have "filter (\<lambda>p. target ! p = character) [startIndex..<length target]
               = m # filter (\<lambda>p. target ! p = character) [m + 1..<length target]"
      using hit by (simp add: split)
    with "1.IH" [OF Some] Some show ?thesis by (simp add: findOccurences.simps)
  qed
qed

section \<open>The enumerator computes the greedy extension of each seed\<close>

lemma length_extendChain: "length chain \<le> length (extendChain rest chain)"
proof (induction rest arbitrary: chain)
  case Nil
  show ?case by simp
next
  case (Cons occurences rest)
  show ?case
  proof (cases "find (\<lambda>occurence. last chain < occurence) occurences")
    case None
    then show ?thesis by simp
  next
    case (Some occurence)
    with Cons.IH [of "chain @ [occurence]"] show ?thesis by simp
  qed
qed

lemma extendChain_stuck:
  "rest = drop (length chain) cp \<Longrightarrow>
   extendChain (drop (length (extendChain rest chain)) cp) (extendChain rest chain)
     = extendChain rest chain"
proof (induction rest arbitrary: chain)
  case Nil
  then show ?case by simp
next
  case (Cons occurences rest)
  show ?case
  proof (cases "find (\<lambda>occurence. last chain < occurence) occurences")
    case None
    with Cons.prems [symmetric] show ?thesis by simp
  next
    case (Some occurence)
    have "rest = drop (length (chain @ [occurence])) cp"
      using Cons.prems by (metis drop_Suc length_append_singleton list.sel(3) tl_drop)
    from Cons.IH [OF this] Some show ?thesis by simp
  qed
qed

lemma foldE_index:
  assumes step: "\<And>i r. P r \<Longrightarrow> i < length r \<Longrightarrow>
                   f i r = Inr (r[i := g (r ! i)]) \<and> P (r[i := g (r ! i)])"
  shows "P r \<Longrightarrow> j \<le> length r \<Longrightarrow>
         foldE f [j..<length r] r = Inr (take j r @ map g (drop j r))
         \<and> P (take j r @ map g (drop j r))"
proof (induction "length r - j" arbitrary: j r)
  case 0
  then show ?case by simp
next
  case (Suc k)
  then have j: "j < length r" by simp
  let ?r1 = "r[j := g (r ! j)]"
  from step [OF Suc.prems(1) j] have f: "f j r = Inr ?r1" and P1: "P ?r1" by simp_all
  have k: "k = length ?r1 - Suc j" using Suc.hyps(2) by simp
  have "Suc j \<le> length ?r1" using j by simp
  from Suc.hyps(1) [OF k P1 this]
  have IH: "foldE f [Suc j..<length r] ?r1
              = Inr (take (Suc j) ?r1 @ map g (drop (Suc j) ?r1))"
    and PIH: "P (take (Suc j) ?r1 @ map g (drop (Suc j) ?r1))" by simp_all
  have shape: "take (Suc j) ?r1 @ map g (drop (Suc j) ?r1) = take j r @ map g (drop j r)"
    using j by (simp add: take_Suc_conv_app_nth Cons_nth_drop_Suc [symmetric])
  have "foldE f [j..<length r] r = foldE f [Suc j..<length r] ?r1"
    using j f by (simp add: upt_conv_Cons)
  with IH PIH shape show ?case by simp
qed

lemma foldE_map:
  assumes step: "\<And>x r. P r \<Longrightarrow> f x r = Inr (map (g x) r) \<and> P (map (g x) r)"
  shows "P r \<Longrightarrow> foldE f xs r = Inr (map (fold g xs) r) \<and> P (map (fold g xs) r)"
proof (induction xs arbitrary: r)
  case Nil
  then show ?case by simp
next
  case (Cons x xs)
  from step [OF Cons.prems] have f: "f x r = Inr (map (g x) r)" and P1: "P (map (g x) r)"
    by simp_all
  from Cons.IH [OF P1] f show ?case by (simp add: comp_def)
qed

lemma fold_extendAt:
  "fold (extendAt cp d) occurences chain =
     (if length chain = d
      then (case find (\<lambda>occurence. last chain < occurence) occurences of
              None \<Rightarrow> chain
            | Some occurence \<Rightarrow> extendChain (drop (Suc d) cp) (chain @ [occurence]))
      else chain)"
proof (induction occurences arbitrary: chain)
  case Nil
  show ?case by simp
next
  case (Cons occurence occurences)
  show ?case
  proof (cases "length chain = d \<and> last chain < occurence")
    case True
    let ?c = "extendChain (drop (Suc d) cp) (chain @ [occurence])"
    have "length (chain @ [occurence]) \<le> length ?c" by (rule length_extendChain)
    with True have "length ?c \<noteq> d" by simp
    with Cons.IH [of ?c] True show ?thesis by (simp add: extendAt_def)
  next
    case False
    with Cons.IH [of chain] show ?thesis by (auto simp: extendAt_def)
  qed
qed

lemma stuckAbove_update:
  assumes "stuckAbove cp d r" and "i < length r" and "d = length (r ! i)"
  shows "stuckAbove cp d (r[i := extendChain (drop (Suc d) cp) (r ! i @ [occurence])])"
proof -
  let ?c = "extendChain (drop (Suc d) cp) (r ! i @ [occurence])"
  have "drop (Suc d) cp = drop (length (r ! i @ [occurence])) cp" using assms(3) by simp
  from extendChain_stuck [OF this] have "extendChain (drop (length ?c) cp) ?c = ?c" .
  then show ?thesis
    using assms(1) unfolding stuckAbove_def by (auto dest!: set_update_subset_insert [THEN subsetD])
qed

lemma deeper_step:
  assumes IH: "\<And>r'. Suc d < length cp \<Longrightarrow> stuckAbove cp (Suc d) r' \<Longrightarrow>
                 getPossibleCombinations cp r' (Suc d)
                 = Inr (map (\<lambda>chain. if length chain = Suc d
                                       then extendChain (drop (Suc d) cp) chain else chain) r')"
    and d: "0 < d" "d < length cp"
    and stuck: "stuckAbove cp d r"
    and i: "i < length r"
  shows "(if i < length r \<and> d = length (r ! i) \<and> r ! i \<noteq> [] \<and> last (r ! i) < occurence
          then (let r' = r[i := r ! i @ [occurence]]
                in if length cp - 1 > d then getPossibleCombinations cp r' (d + 1) else Inr r')
          else Inr r)
         = Inr (r[i := extendAt cp d occurence (r ! i)])
         \<and> stuckAbove cp d (r[i := extendAt cp d occurence (r ! i)])"
proof (cases "d = length (r ! i) \<and> last (r ! i) < occurence")
  case False
  then have "extendAt cp d occurence (r ! i) = r ! i" by (auto simp: extendAt_def)
  with False i stuck show ?thesis by auto
next
  case True
  then have len: "d = length (r ! i)" and lt: "last (r ! i) < occurence" by simp_all
  from len d have ne: "r ! i \<noteq> []" by auto
  let ?r' = "r[i := r ! i @ [occurence]]"
  let ?c = "extendChain (drop (Suc d) cp) (r ! i @ [occurence])"
  have ext: "extendAt cp d occurence (r ! i) = ?c" using True by (simp add: extendAt_def)
  have st: "stuckAbove cp d (r[i := ?c])" by (rule stuckAbove_update [OF stuck i len])
  show ?thesis
  proof (cases "length cp - 1 > d")
    case False
    with d have "drop (Suc d) cp = []" by simp
    then have "?c = r ! i @ [occurence]" by simp
    with False True ne i st ext show ?thesis by (simp add: Let_def)
  next
    case deeper: True
    then have sd: "Suc d < length cp" by simp
    have st': "stuckAbove cp (Suc d) ?r'"
      unfolding stuckAbove_def
    proof (intro ballI impI)
      fix chain assume c: "chain \<in> set ?r'" and l: "Suc d < length chain"
      from c have "chain = r ! i @ [occurence] \<or> chain \<in> set r"
        using set_update_subset_insert [of r i] by auto
      with l len have "chain \<in> set r" by auto
      with stuck l show "extendChain (drop (length chain) cp) chain = chain"
        unfolding stuckAbove_def by simp
    qed
    have "map (\<lambda>chain. if length chain = Suc d
                         then extendChain (drop (Suc d) cp) chain else chain) ?r' = r[i := ?c]"
    proof (rule nth_equalityI)
      show "length (map (\<lambda>chain. if length chain = Suc d
                         then extendChain (drop (Suc d) cp) chain else chain) ?r')
            = length (r[i := ?c])" by simp
    next
      fix j assume "j < length (map (\<lambda>chain. if length chain = Suc d
                         then extendChain (drop (Suc d) cp) chain else chain) ?r')"
      then have j: "j < length r" by simp
      show "map (\<lambda>chain. if length chain = Suc d
                         then extendChain (drop (Suc d) cp) chain else chain) ?r' ! j
            = r[i := ?c] ! j"
      proof (cases "j = i")
        case True
        with i len show ?thesis by simp
      next
        case False
        have "length (r ! j) = Suc d \<Longrightarrow> extendChain (drop (Suc d) cp) (r ! j) = r ! j"
          using stuck j unfolding stuckAbove_def by (metis lessI nth_mem)
        with False j show ?thesis by simp
      qed
    qed
    with IH [OF sd st'] have "getPossibleCombinations cp ?r' (d + 1) = Inr (r[i := ?c])"
      by simp
    with deeper True ne i st ext show ?thesis by (simp add: Let_def)
  qed
qed

lemma getPossibleCombinations_deeper:
  "0 < d \<Longrightarrow> d < length cp \<Longrightarrow> stuckAbove cp d r \<Longrightarrow>
   getPossibleCombinations cp r d
     = Inr (map (\<lambda>chain. if length chain = d then extendChain (drop d cp) chain else chain) r)"
proof (induction "length cp - d" arbitrary: d r)
  case 0
  then show ?case by simp
next
  case (Suc k)
  have IH: "getPossibleCombinations cp r' (Suc d)
              = Inr (map (\<lambda>chain. if length chain = Suc d
                                    then extendChain (drop (Suc d) cp) chain else chain) r')"
    if "Suc d < length cp" "stuckAbove cp (Suc d) r'" for r'
    using Suc.hyps(1) [of "Suc d" r'] Suc.hyps(2) that by simp
  have inner: "foldE (\<lambda>i r.
                  if i < length r \<and> d = length (r ! i) \<and> r ! i \<noteq> []
                     \<and> last (r ! i) < occurence
                  then (let r' = r[i := r ! i @ [occurence]]
                        in if length cp - 1 > d
                           then getPossibleCombinations cp r' (d + 1)
                           else Inr r')
                  else Inr r) [0..<length res] res
               = Inr (map (extendAt cp d occurence) res)
               \<and> stuckAbove cp d (map (extendAt cp d occurence) res)"
    if "stuckAbove cp d res" for occurence res
    using foldE_index [where P = "stuckAbove cp d" and g = "extendAt cp d occurence"
        and j = 0 and r = res,
        OF deeper_step [OF IH Suc.prems(1,2)] that]
    by simp
  have "foldE (\<lambda>occurence res.
              foldE (\<lambda>i r.
                  if i < length r \<and> d = length (r ! i) \<and> r ! i \<noteq> []
                     \<and> last (r ! i) < occurence
                  then (let r' = r[i := r ! i @ [occurence]]
                        in if length cp - 1 > d
                           then getPossibleCombinations cp r' (d + 1)
                           else Inr r')
                  else Inr r)
                [0..<length res] res) (cp ! d) r
        = Inr (map (fold (extendAt cp d) (cp ! d)) r)"
    using foldE_map [where P = "stuckAbove cp d" and g = "extendAt cp d", OF inner Suc.prems(3)]
    by simp
  moreover have "fold (extendAt cp d) (cp ! d) chain
                 = (if length chain = d then extendChain (drop d cp) chain else chain)" for chain
    using Suc.prems(2) by (simp add: fold_extendAt Cons_nth_drop_Suc [symmetric])
  ultimately show ?case
    using Suc.prems(1,2) by (subst getPossibleCombinations.simps) (simp add: Let_def)
qed

lemma getPossibleCombinations_greedy:
  assumes "cp \<noteq> []"
  shows "getPossibleCombinations cp [] 0
         = Inr (filter (\<lambda>chain. length chain = length cp)
                  (map (\<lambda>occurence. extendChain (tl cp) [occurence]) (hd cp)))"
proof (cases "length cp > 1")
  case False
  with assms have "tl cp = []" by (cases cp) auto
  with False assms show ?thesis
    by (subst getPossibleCombinations.simps) (simp add: Let_def hd_conv_nth)
next
  case True
  have "stuckAbove cp 1 (map (\<lambda>occurence. [occurence]) (cp ! 0))"
    by (auto simp: stuckAbove_def)
  from getPossibleCombinations_deeper [OF _ True this]
  have "getPossibleCombinations cp (map (\<lambda>occurence. [occurence]) (cp ! 0)) (0 + 1)
        = Inr (map (\<lambda>occurence. extendChain (tl cp) [occurence]) (cp ! 0))"
    by (simp add: comp_def drop_Suc)
  with True assms show ?thesis
    by (subst getPossibleCombinations.simps) (simp add: Let_def hd_conv_nth)
qed

section \<open>Every enumerated chain is complete; on ascending lists it is the least from its seed\<close>

lemma sorted_wrt_less_snoc:
  assumes "sorted_wrt (<) chain" and "chain \<noteq> []" and "last chain < (x::nat)"
  shows "sorted_wrt (<) (chain @ [x])"
proof -
  have "y \<le> last chain" if "y \<in> set chain" for y
    using assms(1,2) that
  proof (induction chain)
    case Nil
    then show ?case by simp
  next
    case (Cons a chain)
    show ?case
    proof (cases "chain = []")
      case True
      with Cons.prems show ?thesis by simp
    next
      case False
      then have "last chain \<in> set chain" by simp
      with Cons.prems(1) have "a < last chain" by simp
      moreover have "y \<le> last chain" if "y \<in> set chain"
        using Cons.IH Cons.prems(1) False that by simp
      ultimately show ?thesis using Cons.prems(3) False by auto
    qed
  qed
  with assms show ?thesis by (fastforce simp: sorted_wrt_append)
qed

lemma extendChain_sound:
  assumes "sorted_wrt (<) chain" and "chain \<noteq> []"
  shows "\<exists>ext. extendChain rest chain = chain @ ext
           \<and> list_all2 (\<lambda>position occurences. position \<in> set occurences)
                ext (take (length ext) rest)
           \<and> sorted_wrt (<) (chain @ ext)"
  using assms
proof (induction rest arbitrary: chain)
  case Nil
  then show ?case by simp
next
  case (Cons occurences rest)
  show ?case
  proof (cases "find (\<lambda>occurence. last chain < occurence) occurences")
    case None
    with Cons.prems show ?thesis by simp
  next
    case (Some occurence)
    then have mem: "occurence \<in> set occurences" and lt: "last chain < occurence"
      by (auto simp: find_Some_iff)
    have "sorted_wrt (<) (chain @ [occurence])"
      by (rule sorted_wrt_less_snoc [OF Cons.prems lt])
    from Cons.IH [OF this]
    obtain ext where ext: "extendChain rest (chain @ [occurence]) = (chain @ [occurence]) @ ext"
      "list_all2 (\<lambda>position occurences. position \<in> set occurences) ext (take (length ext) rest)"
      "sorted_wrt (<) ((chain @ [occurence]) @ ext)" by auto
    show ?thesis
    proof (intro exI conjI)
      show "extendChain (occurences # rest) chain = chain @ (occurence # ext)"
        using Some ext(1) by simp
      show "list_all2 (\<lambda>position occurences. position \<in> set occurences) (occurence # ext)
              (take (length (occurence # ext)) (occurences # rest))"
        using mem ext(2) by simp
      show "sorted_wrt (<) (chain @ occurence # ext)" using ext(3) by simp
    qed
  qed
qed

lemma extendChain_least:
  assumes "\<forall>occurences \<in> set rest. sorted occurences"
    and "list_all2 (\<lambda>position occurences. position \<in> set occurences) ys rest"
    and "sorted_wrt (<) (b # ys)"
    and "last chain \<le> b"
  shows "\<exists>ext. extendChain rest chain = chain @ ext \<and> list_all2 (\<le>) ext ys"
  using assms
proof (induction rest arbitrary: chain ys b)
  case Nil
  then show ?case by simp
next
  case (Cons occurences rest)
  from Cons.prems(2) obtain y ys' where ys: "ys = y # ys'" and y: "y \<in> set occurences"
    and rest: "list_all2 (\<lambda>position occurences. position \<in> set occurences) ys' rest"
    by (auto simp: list_all2_Cons2)
  from Cons.prems(3) ys have b_lt: "b < y" and srt: "sorted_wrt (<) (y # ys')" by auto
  from y obtain k where k: "k < length occurences" "occurences ! k = y"
    by (auto simp: in_set_conv_nth)
  have "find (\<lambda>occurence. last chain < occurence) occurences \<noteq> None"
    using y b_lt Cons.prems(4) by (auto simp: find_None_iff)
  then obtain occurence where
    Some: "find (\<lambda>occurence. last chain < occurence) occurences = Some occurence" by auto
  then obtain i where i: "i < length occurences" "occurence = occurences ! i"
    "\<forall>j<i. \<not> last chain < occurences ! j" by (auto simp: find_Some_iff)
  have "\<not> k < i" using i(3) k b_lt Cons.prems(4) by auto
  then have "i \<le> k" by simp
  moreover have "sorted occurences" using Cons.prems(1) by simp
  ultimately have le: "occurence \<le> y" using i k by (auto intro: sorted_nth_mono)
  have "\<forall>occurences \<in> set rest. sorted occurences" using Cons.prems(1) by simp
  from Cons.IH [OF this rest srt, of "chain @ [occurence]"] le
  obtain ext where "extendChain rest (chain @ [occurence]) = (chain @ [occurence]) @ ext"
    "list_all2 (\<le>) ext ys'" by auto
  with Some le ys show ?case by (intro exI [of _ "occurence # ext"]) simp
qed

lemma getPossibleCombinations_complete:
  assumes "cp \<noteq> []" and "getPossibleCombinations cp [] 0 = Inr combinations"
    and "chain \<in> set combinations"
  shows "completeChain cp chain"
proof -
  from assms obtain occurence where o: "occurence \<in> set (hd cp)"
    and c: "chain = extendChain (tl cp) [occurence]" and len: "length chain = length cp"
    by (auto simp: getPossibleCombinations_greedy)
  from extendChain_sound [of "[occurence]" "tl cp"]
  obtain ext where ext: "chain = [occurence] @ ext"
    "list_all2 (\<lambda>position occurences. position \<in> set occurences) ext (take (length ext) (tl cp))"
    "sorted_wrt (<) ([occurence] @ ext)" using c by auto
  from ext(1) len have "length ext = length (tl cp)" by simp
  with ext(2) have "list_all2 (\<lambda>position occurences. position \<in> set occurences) ext (tl cp)"
    by simp
  with o have "list_all2 (\<lambda>position occurences. position \<in> set occurences)
                 (occurence # ext) (hd cp # tl cp)" by simp
  with assms(1) ext(1,3) show ?thesis by (simp add: completeChain_def)
qed

lemma getPossibleCombinations_least:
  assumes "cp \<noteq> []" and "getPossibleCombinations cp [] 0 = Inr combinations"
    and "\<forall>occurences \<in> set cp. sorted occurences"
    and "completeChain cp chain"
  shows "\<exists>found \<in> set combinations. hd found = hd chain \<and> list_all2 (\<le>) found chain"
proof -
  from assms(1) obtain occs rest where cp: "cp = occs # rest" by (cases cp) auto
  with assms(4) obtain p ys where chain: "chain = p # ys" and p: "p \<in> set occs"
    and ys: "list_all2 (\<lambda>position occurences. position \<in> set occurences) ys rest"
    and srt: "sorted_wrt (<) (p # ys)"
    by (auto simp: completeChain_def list_all2_Cons2)
  have "\<forall>occurences \<in> set rest. sorted occurences" using assms(3) cp by simp
  from extendChain_least [OF this ys srt, of "[p]"]
  obtain ext where ext: "extendChain rest [p] = [p] @ ext" "list_all2 (\<le>) ext ys" by auto
  moreover have "length ext = length ys" "length ys = length rest"
    using ext(2) ys by (simp_all add: list_all2_lengthD)
  ultimately have "length (extendChain rest [p]) = length cp"
    using cp by simp
  with p cp assms(2) have "extendChain rest [p] \<in> set combinations"
    by (auto simp: getPossibleCombinations_greedy)
  with ext chain show ?thesis by (intro bexI [of _ "extendChain rest [p]"]) simp_all
qed

section \<open>The loop that builds \<open>occurencesPerChar\<close>\<close>

lemma lowerBound_Suc:
  assumes "occurrenceList target query i \<noteq> []"
  shows "lowerBound target query (Suc i) = Some (hd (occurrenceList target query i) + 1)"
  using assms by (auto simp: occurrenceList_def split: option.splits list.splits)

lemma occurencesLoop_spec:
  assumes "i \<le> length query"
    and "occurencesPerChar = map (occurrenceList target query) [0..<i]"
    and "\<forall>k<i. occurrenceList target query k \<noteq> []"
  shows "occurencesLoop target query i occurencesPerChar
         = (if \<exists>k<length query. occurrenceList target query k = [] then None
            else Some (map (occurrenceList target query) [0..<length query]))"
  using assms
proof (induction "length query - i" arbitrary: i occurencesPerChar)
  case 0
  then have "i = length query" by simp
  with "0.prems" show ?case by (subst occurencesLoop.simps) auto
next
  case (Suc n)
  then have i: "i < length query" by simp
  let ?start = "if occurencesPerChar \<noteq> [] then hd (occurencesPerChar ! (i - 1)) + 1 else 0"
  have bound: "lowerBound target query i = Some ?start"
  proof (cases i)
    case 0
    with Suc.prems(2) show ?thesis by simp
  next
    case (Suc k)
    with Suc.prems(3) have "occurrenceList target query k \<noteq> []" by simp
    from lowerBound_Suc [OF this] Suc Suc.prems(2) show ?thesis
      by (simp add: nth_append del: upt_Suc lowerBound.simps)
  qed
  then have occ: "findOccurences target (query ! i) ?start [] = occurrenceList target query i"
    by (simp add: findOccurences_filter occurrenceList_def)
  show ?case
  proof (cases "occurrenceList target query i = []")
    case True
    with i occ show ?thesis by (subst occurencesLoop.simps) (auto simp: Let_def)
  next
    case False
    have "occurencesLoop target query (i + 1)
            (occurencesPerChar @ [occurrenceList target query i])
          = (if \<exists>k<length query. occurrenceList target query k = [] then None
             else Some (map (occurrenceList target query) [0..<length query]))"
    proof (rule Suc.hyps(1))
      show "n = length query - (i + 1)" using Suc.hyps(2) by simp
      show "i + 1 \<le> length query" using i by simp
      show "occurencesPerChar @ [occurrenceList target query i]
            = map (occurrenceList target query) [0..<i + 1]" using Suc.prems(2) by simp
      show "\<forall>k<i + 1. occurrenceList target query k \<noteq> []"
        using Suc.prems(3) False by (auto simp: less_Suc_eq)
    qed
    with i occ False show ?thesis by (subst occurencesLoop.simps) (simp add: Let_def)
  qed
qed

lemma occurencesLoop_start:
  "occurencesLoop target query 0 []
   = (if zeroOccurrences target query then None
      else Some (map (occurrenceList target query) [0..<length query]))"
  using occurencesLoop_spec [of 0 query "[]" target]
  by (auto simp: zeroOccurrences_def list_ex_iff)

lemma occurrenceList_Suc:
  assumes "occurrenceList target query i \<noteq> []"
  shows "occurrenceList target query (Suc i)
         = filter (\<lambda>p. target ! p = query ! Suc i)
             [hd (occurrenceList target query i) + 1..<length target]"
  using lowerBound_Suc [OF assms] by (simp add: occurrenceList_def del: lowerBound.simps)

section \<open>Lowercasing and the score of a chain\<close>

lemma toLowerCase_eq_Nil: "toLowerCase table s = [] \<longleftrightarrow> s = []"
  by (simp add: toLowerCase_def)

lemma calculateLoop_sum:
  "calculateLoop rest acc previous
   = acc + (\<Sum>i<length rest. int (rest ! i) - int ((previous # rest) ! i) - 1)"
proof (induction rest arbitrary: acc previous)
  case Nil
  show ?case by simp
next
  case (Cons position rest)
  show ?case by (simp add: Cons.IH sum.lessThan_Suc_shift del: sum.lessThan_Suc)
qed

lemma calculateExtraChars_sum:
  "calculateExtraChars chain
   = (\<Sum>i = 1..<length chain. int (chain ! i) - int (chain ! (i - 1)) - 1)"
proof (cases chain)
  case Nil
  then show ?thesis by (simp add: calculateExtraChars_def)
next
  case (Cons first rest)
  have "(\<Sum>i = 1..<length chain. int (chain ! i) - int (chain ! (i - 1)) - 1)
        = (\<Sum>i = 0..<length rest. int (chain ! Suc i) - int (chain ! i) - 1)"
    using Cons sum.shift_bounds_Suc_ivl [of "\<lambda>i. int (chain ! i) - int (chain ! (i - 1)) - 1" 0 "length rest"]
    by simp
  with Cons show ?thesis
    by (simp add: calculateExtraChars_def calculateLoop_sum atLeast0LessThan)
qed

lemma calculateExtraChars_nonneg:
  assumes "sorted_wrt (<) chain"
  shows "0 \<le> calculateExtraChars chain"
proof -
  have "0 \<le> int (chain ! i) - int (chain ! (i - 1)) - 1" if "i \<in> {1..<length chain}" for i
    using sorted_wrt_nth_less [OF assms, of "i - 1" i] that by simp
  then show ?thesis unfolding calculateExtraChars_sum by (rule sum_nonneg)
qed


section \<open>The selection loop\<close>

lemma selectLoop_keeps_best:
  "selectLoop table target limits combinations (Some best) \<noteq> None"
  by (induction combinations arbitrary: best) (simp_all add: Let_def)

lemma selectLoop_None_iff:
  "selectLoop table target limits combinations None = None
   \<longleftrightarrow> (\<forall>chain \<in> set combinations. \<not> hasLessThanMaximumCharacters table target chain limits)"
proof (induction combinations)
  case Nil
  show ?case by simp
next
  case (Cons candidate combinations)
  have "\<exists>found. selectLoop table target limits combinations
                   (Some (calculateExtraChars candidate, candidate)) = Some found"
    using selectLoop_keeps_best [of table target limits combinations] by auto
  with Cons show ?case by (auto simp: Let_def)
qed

text \<open>The chain that is selected, where it stands and what it beats.\<close>

lemma selectLoop_Some:
  assumes "selectLoop table target limits combinations best = Some (extra, chain)"
  shows "(best = Some (extra, chain)
          \<and> (\<forall>other \<in> set combinations. hasLessThanMaximumCharacters table target other limits
                \<longrightarrow> extra = 0 \<or> extra \<le> calculateExtraChars other))
         \<or> (\<exists>before after.
               combinations = before @ chain # after
               \<and> hasLessThanMaximumCharacters table target chain limits
               \<and> extra = calculateExtraChars chain
               \<and> (\<forall>e c. best = Some (e, c) \<longrightarrow> extra < e)
               \<and> (\<forall>other \<in> set before. hasLessThanMaximumCharacters table target other limits
                     \<longrightarrow> extra < calculateExtraChars other)
               \<and> (\<forall>other \<in> set after. hasLessThanMaximumCharacters table target other limits
                     \<longrightarrow> extra = 0 \<or> extra \<le> calculateExtraChars other))"
  using assms
proof (induction combinations arbitrary: best)
  case Nil
  then show ?case by simp
next
  case (Cons candidate combinations)
  show ?case
  proof (cases "hasLessThanMaximumCharacters table target candidate limits")
    case False
    with Cons.prems have run: "selectLoop table target limits combinations best = Some (extra, chain)"
      by simp
    from Cons.IH [OF run] show ?thesis
    proof (elim disjE exE conjE)
      assume "best = Some (extra, chain)"
        and "\<forall>other \<in> set combinations. hasLessThanMaximumCharacters table target other limits
               \<longrightarrow> extra = 0 \<or> extra \<le> calculateExtraChars other"
      with False show ?thesis by auto
    next
      fix before after
      assume "combinations = before @ chain # after"
        "hasLessThanMaximumCharacters table target chain limits"
        "extra = calculateExtraChars chain"
        "\<forall>e c. best = Some (e, c) \<longrightarrow> extra < e"
        "\<forall>other \<in> set before. hasLessThanMaximumCharacters table target other limits
           \<longrightarrow> extra < calculateExtraChars other"
        "\<forall>other \<in> set after. hasLessThanMaximumCharacters table target other limits
           \<longrightarrow> extra = 0 \<or> extra \<le> calculateExtraChars other"
      with False show ?thesis
        by (intro disjI2 exI [of _ "candidate # before"] exI [of _ after]) auto
    qed
  next
    case survives: True
    define best' where "best' =
      (case best of
         None \<Rightarrow> (calculateExtraChars candidate, candidate)
       | Some b \<Rightarrow> if fst b > calculateExtraChars candidate
                    then (calculateExtraChars candidate, candidate) else b)"
    show ?thesis
    proof (cases "fst best' = 0")
      case True
      with survives Cons.prems have res: "best' = (extra, chain)"
        by (simp add: Let_def best'_def)
      with True have zero: "extra = 0" by simp
      show ?thesis
      proof (cases "best = Some (extra, chain)")
        case True
        with zero show ?thesis by simp
      next
        case False
        with res have "chain = candidate" "extra = calculateExtraChars candidate"
          "\<forall>e c. best = Some (e, c) \<longrightarrow> extra < e"
          by (auto simp: best'_def split: option.splits if_splits)
        with survives zero show ?thesis
          by (intro disjI2 exI [of _ "[]"] exI [of _ combinations]) simp
      qed
    next
      case False
      with survives Cons.prems
      have run: "selectLoop table target limits combinations (Some best') = Some (extra, chain)"
        by (simp add: Let_def best'_def)
      from Cons.IH [OF run] show ?thesis
      proof (elim disjE exE conjE)
        assume kept: "Some best' = Some (extra, chain)"
          and rest: "\<forall>other \<in> set combinations. hasLessThanMaximumCharacters table target other limits
               \<longrightarrow> extra = 0 \<or> extra \<le> calculateExtraChars other"
        show ?thesis
        proof (cases "best = Some (extra, chain)")
          case True
          then have "extra \<le> calculateExtraChars candidate"
            using kept by (auto simp: best'_def split: if_splits)
          with True rest show ?thesis by auto
        next
          case False
          with kept have "chain = candidate" "extra = calculateExtraChars candidate"
            "\<forall>e c. best = Some (e, c) \<longrightarrow> extra < e"
            by (auto simp: best'_def split: option.splits if_splits)
          with survives rest show ?thesis
            by (intro disjI2 exI [of _ "[]"] exI [of _ combinations]) simp
        qed
      next
        fix before after
        assume later: "combinations = before @ chain # after"
          "hasLessThanMaximumCharacters table target chain limits"
          "extra = calculateExtraChars chain"
          "\<forall>other \<in> set before. hasLessThanMaximumCharacters table target other limits
             \<longrightarrow> extra < calculateExtraChars other"
          "\<forall>other \<in> set after. hasLessThanMaximumCharacters table target other limits
             \<longrightarrow> extra = 0 \<or> extra \<le> calculateExtraChars other"
          and beats: "\<forall>e c. Some best' = Some (e, c) \<longrightarrow> extra < e"
        from beats have "extra < fst best'" by (cases best') simp
        then have "extra < calculateExtraChars candidate"
          "\<forall>e c. best = Some (e, c) \<longrightarrow> extra < e"
          by (auto simp: best'_def split: option.splits if_splits)
        with later show ?thesis
          by (intro disjI2 exI [of _ "candidate # before"] exI [of _ after]) auto
      qed
    qed
  qed
qed

lemma selectLoop_break:
  assumes "selectLoop table target limits combinations best = Some (0, chain)"
    and "\<forall>e c. best = Some (e, c) \<longrightarrow> e \<noteq> 0"
  shows "selectLoop table target limits (combinations @ rest) best = Some (0, chain)"
  using assms
proof (induction combinations arbitrary: best)
  case Nil
  then show ?case by simp
next
  case (Cons candidate combinations)
  show ?case
  proof (cases "hasLessThanMaximumCharacters table target candidate limits")
    case False
    with Cons show ?thesis by simp
  next
    case survives: True
    define best' where "best' =
      (case best of
         None \<Rightarrow> (calculateExtraChars candidate, candidate)
       | Some b \<Rightarrow> if fst b > calculateExtraChars candidate
                    then (calculateExtraChars candidate, candidate) else b)"
    show ?thesis
    proof (cases "fst best' = 0")
      case True
      with survives Cons.prems(1) show ?thesis by (simp add: Let_def best'_def)
    next
      case False
      with survives Cons.prems(1)
      have run: "selectLoop table target limits combinations (Some best') = Some (0, chain)"
        by (simp add: Let_def best'_def)
      have "\<forall>e c. Some best' = Some (e, c) \<longrightarrow> e \<noteq> 0" using False by auto
      from Cons.IH [OF run this] survives False show ?thesis
        by (simp add: Let_def best'_def)
    qed
  qed
qed

lemma selectLoop_first_zero:
  assumes "\<forall>other \<in> set before. hasLessThanMaximumCharacters table target other limits
             \<longrightarrow> 0 < calculateExtraChars other"
    and "\<forall>e c. best = Some (e, c) \<longrightarrow> 0 < e"
    and "hasLessThanMaximumCharacters table target chain limits"
    and "calculateExtraChars chain = 0"
  shows "selectLoop table target limits (before @ chain # rest) best = Some (0, chain)"
  using assms(1,2)
proof (induction before arbitrary: best)
  case Nil
  with assms(3,4) show ?case by (auto simp: Let_def split: option.splits)
next
  case (Cons candidate before)
  show ?case
  proof (cases "hasLessThanMaximumCharacters table target candidate limits")
    case False
    with Cons show ?thesis by simp
  next
    case True
    define best' where "best' =
      (case best of
         None \<Rightarrow> (calculateExtraChars candidate, candidate)
       | Some b \<Rightarrow> if fst b > calculateExtraChars candidate
                    then (calculateExtraChars candidate, candidate) else b)"
    from True Cons.prems(1) have "0 < calculateExtraChars candidate" by simp
    with Cons.prems(2) have pos: "0 < fst best'"
      by (auto simp: best'_def split: option.splits)
    then have "\<forall>e c. Some best' = Some (e, c) \<longrightarrow> 0 < e" by auto
    moreover have "\<forall>other \<in> set before. hasLessThanMaximumCharacters table target other limits
             \<longrightarrow> 0 < calculateExtraChars other" using Cons.prems(1) by simp
    ultimately have "selectLoop table target limits (before @ chain # rest) (Some best')
                     = Some (0, chain)" by (rule Cons.IH [rotated])
    with True pos show ?thesis by (simp add: Let_def best'_def)
  qed
qed

section \<open>Calls of \<open>matchFuzzy\<close>\<close>

text \<open>What a successful call went through.\<close>

lemma matchFuzzy_Some:
  assumes "matchFuzzy table query target characterLimit = Inr (Some result)"
  shows "query \<noteq> [] \<and> length query \<le> length target
         \<and> (\<exists>occurencesPerChar combinations.
               occurencesLoop (toLowerCase table target) (toLowerCase table query) 0 []
                 = Some occurencesPerChar
               \<and> getPossibleCombinations occurencesPerChar [] 0 = Inr combinations
               \<and> selectLoop table (toLowerCase table target) characterLimit combinations None
                   = Some (extraChars result, positions result)
               \<and> offset result = hd (positions result)
               \<and> trailingChars result
                   = int (length target) - (int (last (positions result)) + 1))"
  using assms unfolding matchFuzzy_def
  by (auto simp: Let_def split: if_splits option.splits sum.splits)

lemma occurencesLoop_Some:
  assumes "occurencesLoop target query 0 [] = Some occurencesPerChar"
  shows "length occurencesPerChar = length query
         \<and> (\<forall>i<length query. \<forall>p \<in> set (occurencesPerChar ! i).
               p < length target \<and> target ! p = query ! i)
         \<and> (\<forall>occurences \<in> set occurencesPerChar. sorted occurences)"
proof -
  from assms have opc: "occurencesPerChar = map (occurrenceList target query) [0..<length query]"
    by (auto simp: occurencesLoop_start split: if_splits)
  have "sorted (occurrenceList target query i)" for i
    by (auto simp: occurrenceList_def intro: sorted_wrt_filter split: option.splits)
  moreover have "p < length target \<and> target ! p = query ! i"
    if "p \<in> set (occurrenceList target query i)" for p i
    using that by (auto simp: occurrenceList_def split: option.splits)
  ultimately show ?thesis using opc by auto
qed


text \<open>The one throwing path of the model is never taken.\<close>

lemma matchFuzzy_never_throws:
  "\<exists>outcome. matchFuzzy table query target characterLimit = Inr outcome"
proof (cases "target = [] \<or> query = [] \<or> length target < length query")
  case True
  then show ?thesis by (auto simp: matchFuzzy_def)
next
  case False
  show ?thesis
  proof (cases "occurencesLoop (toLowerCase table target) (toLowerCase table query) 0 []")
    case None
    with False show ?thesis by (simp add: matchFuzzy_def)
  next
    case (Some occurencesPerChar)
    from False have "toLowerCase table query \<noteq> []" by (simp add: toLowerCase_eq_Nil)
    with occurencesLoop_Some [OF Some] have "occurencesPerChar \<noteq> []" by auto
    from getPossibleCombinations_greedy [OF this] Some False show ?thesis
      by (simp add: matchFuzzy_def Let_def split: option.splits)
  qed
qed

section \<open>Matching a string against itself\<close>




section \<open>The character-limit filter\<close>

lemma limitLoop_iff:
  "limitLoop table target foundChars charLimits keys \<longleftrightarrow>
     (\<forall>character \<in> set keys.
        case toLowerCase table [character] of
          [lowerCased] \<Rightarrow>
            (case map_of charLimits lowerCased of
               None \<Rightarrow> True
             | Some limit \<Rightarrow>
                 \<not> limit < int (length (findOccurences
                       (case foundChars of
                          [] \<Rightarrow> target
                        | _ # _ \<Rightarrow> substring target (hd foundChars) (last foundChars))
                       lowerCased 0 [])))
        | _ \<Rightarrow> True)"
  by (induction keys) (auto simp: Let_def split: option.splits list.splits)

lemma length_findOccurences:
  "length (findOccurences s c 0 []) = length (filter (\<lambda>x. x = c) s)"
proof -
  have "filter (\<lambda>x. x = c) s = filter (\<lambda>x. x = c) (map ((!) s) [0..<length s])"
    by (simp add: map_nth)
  also have "\<dots> = map ((!) s) (filter (\<lambda>p. s ! p = c) [0..<length s])"
    by (simp add: filter_map comp_def)
  finally show ?thesis by (simp add: findOccurences_filter)
qed

lemma substring_grows:
  assumes "a \<le> b" and "b \<le> b'"
  shows "\<exists>more. substring s a b' = substring s a b @ more"
proof -
  let ?st = "min a (length s)"
  let ?m = "min b (length s) - ?st" and ?m' = "min b' (length s) - ?st"
  from assms have "?m' = ?m + (?m' - ?m)" by simp
  then have "take ?m' (drop ?st s)
             = take ?m (drop ?st s) @ take (?m' - ?m) (drop ?m (drop ?st s))"
    by (metis take_add)
  moreover from assms have "substring s a b = take ?m (drop ?st s)"
    "substring s a b' = take ?m' (drop ?st s)"
    by (simp_all add: substring_def Let_def min_absorb1 max_absorb2)
  ultimately show ?thesis by simp
qed

lemma count_substring_mono:
  assumes "a \<le> b" and "b \<le> b'"
  shows "length (findOccurences (substring s a b) c 0 [])
         \<le> length (findOccurences (substring s a b') c 0 [])"
proof -
  from substring_grows [OF assms] obtain more
    where "substring s a b' = substring s a b @ more" by auto
  then show ?thesis by (simp add: length_findOccurences)
qed

text \<open>A chain with the same first position and a last position further right fails too.\<close>

lemma limitLoop_wider:
  assumes "found \<noteq> []" and "chain \<noteq> []" and "hd found = hd chain"
    and "hd found \<le> last found" and "last found \<le> last chain"
    and "limitLoop table target chain limits keys"
  shows "limitLoop table target found limits keys"
  using assms(6)
proof (induction keys)
  case Nil
  show ?case by simp
next
  case (Cons character keys)
  from assms(1,2) obtain x xs y ys where shape: "found = x # xs" "chain = y # ys"
    by (cases found; cases chain) auto
  have mono: "length (findOccurences (substring target (hd found) (last found)) c 0 [])
              \<le> length (findOccurences (substring target (hd chain) (last chain)) c 0 [])"
    for c using count_substring_mono [OF assms(4,5)] assms(3) by simp
  from Cons.prems have rest: "limitLoop table target chain limits keys"
    by (simp add: Let_def split: if_splits)
  show ?case
  proof (cases "toLowerCase table [character]")
    case Nil
    with Cons.IH [OF rest] show ?thesis by (simp add: Let_def)
  next
    case (Cons lowerCased more)
    show ?thesis
    proof (cases "more = []")
      case False
      with Cons Cons.IH [OF rest] show ?thesis by (cases more) (simp_all add: Let_def)
    next
      case True
      with Cons Cons.prems shape mono [of lowerCased] Cons.IH [OF rest] show ?thesis
        by (auto simp: Let_def split: option.splits if_splits)
    qed
  qed
qed

lemma list_all2_le_last:
  assumes "list_all2 (\<le>) found chain" and "found \<noteq> []"
  shows "last found \<le> (last chain :: nat)"
proof -
  from assms have len: "length found = length chain" and ne: "chain \<noteq> []"
    by (auto dest: list_all2_lengthD)
  from assms(2) have "length found - 1 < length found" by simp
  from list_all2_nthD [OF assms(1) this] len assms(2) ne show ?thesis
    by (simp add: last_conv_nth)
qed

lemma sorted_wrt_hd_le_last:
  assumes "sorted_wrt (<) chain" and "chain \<noteq> []"
  shows "hd chain \<le> (last chain :: nat)"
proof (cases "length chain = 1")
  case True
  with assms(2) show ?thesis by (simp add: hd_conv_nth last_conv_nth)
next
  case False
  with assms(2) have "0 < length chain - 1" by (cases chain) auto
  from sorted_wrt_nth_less [OF assms(1) this] assms(2) show ?thesis
    by (simp add: hd_conv_nth last_conv_nth)
qed

section \<open>Matching a string against itself, whatever lowercasing does to its length\<close>


section \<open>The result of a successful match\<close>




section \<open>When there is no match\<close>

text \<open>
  Claim C2. \<open>matchFuzzy\<close> never throws, and it returns \<open>null\<close> exactly when the
  query is empty, the target is empty, the target is shorter than the query, some query
  character has no occurrence in the lowercased target at or after its lower bound, or
  every complete candidate chain (one position from each occurrence list, strictly
  increasing) fails the character-limit filter. Since it never throws, it returns a
  result in every other case.
\<close>

theorem no_match_cases:
  "(\<exists>outcome. matchFuzzy table query target characterLimit = Inr outcome)
   \<and> (matchFuzzy table query target characterLimit = Inr None \<longleftrightarrow>
        query = [] \<or> target = [] \<or> length target < length query
        \<or> zeroOccurrences (toLowerCase table target) (toLowerCase table query)
        \<or> (\<forall>chain. completeChain (occurrenceLists (toLowerCase table target) (toLowerCase table query))
                      chain
                    \<longrightarrow> \<not> hasLessThanMaximumCharacters table (toLowerCase table target) chain
                          characterLimit))"
proof (cases "target = [] \<or> query = [] \<or> length target < length query")
  case True
  with matchFuzzy_never_throws [of table query target characterLimit] show ?thesis
    by (auto simp: matchFuzzy_def)
next
  case proper: False
  let ?t = "toLowerCase table target" and ?q = "toLowerCase table query"
  show ?thesis
  proof (cases "zeroOccurrences ?t ?q")
    case True
    with proper matchFuzzy_never_throws [of table query target characterLimit] show ?thesis
      by (simp add: matchFuzzy_def occurencesLoop_start)
  next
    case False
    let ?lists = "occurrenceLists ?t ?q"
    from False have loop: "occurencesLoop ?t ?q 0 [] = Some ?lists"
      by (simp add: occurencesLoop_start occurrenceLists_def)
    from proper have "?q \<noteq> []" by (simp add: toLowerCase_eq_Nil)
    with occurencesLoop_Some [OF loop] have ne: "?lists \<noteq> []"
      and srt: "\<forall>occurences \<in> set ?lists. sorted occurences"
      by auto
    from getPossibleCombinations_greedy [OF ne] obtain combinations
      where enum: "getPossibleCombinations ?lists [] 0 = Inr combinations" by auto
    have none: "matchFuzzy table query target characterLimit = Inr None
                \<longleftrightarrow> selectLoop table ?t characterLimit combinations None = None"
      using proper loop enum by (auto simp: matchFuzzy_def Let_def split: option.splits)
    have "(\<forall>chain \<in> set combinations. \<not> hasLessThanMaximumCharacters table ?t chain characterLimit)
          \<longleftrightarrow> (\<forall>chain. completeChain ?lists chain
                 \<longrightarrow> \<not> hasLessThanMaximumCharacters table ?t chain characterLimit)"
    proof (intro iffI allI impI ballI)
      fix chain
      assume "\<forall>chain. completeChain ?lists chain
                \<longrightarrow> \<not> hasLessThanMaximumCharacters table ?t chain characterLimit"
        and "chain \<in> set combinations"
      with getPossibleCombinations_complete [OF ne enum]
      show "\<not> hasLessThanMaximumCharacters table ?t chain characterLimit" by simp
    next
      fix chain
      assume fail: "\<forall>chain \<in> set combinations.
                      \<not> hasLessThanMaximumCharacters table ?t chain characterLimit"
        and complete: "completeChain ?lists chain"
      from getPossibleCombinations_least [OF ne enum srt complete] obtain found
        where found: "found \<in> set combinations" "hd found = hd chain"
          "list_all2 (\<le>) found chain" by auto
      from complete ne have cne: "chain \<noteq> []" by (auto simp: completeChain_def)
      with found(3) have fne: "found \<noteq> []" by auto
      from getPossibleCombinations_complete [OF ne enum found(1)]
      have "sorted_wrt (<) found" by (simp add: completeChain_def)
      from sorted_wrt_hd_le_last [OF this fne] have "hd found \<le> last found" .
      moreover from list_all2_le_last [OF found(3) fne] have "last found \<le> last chain" .
      ultimately have "limitLoop table ?t found characterLimit (map fst characterLimit)"
        if "limitLoop table ?t chain characterLimit (map fst characterLimit)"
        using limitLoop_wider [OF fne cne found(2)] that by simp
      with fail found(1) show "\<not> hasLessThanMaximumCharacters table ?t chain characterLimit"
        by (auto simp: hasLessThanMaximumCharacters_def)
    qed
    with none proper False matchFuzzy_never_throws [of table query target characterLimit]
    show ?thesis by (simp add: selectLoop_None_iff)
  qed
qed

text \<open>
  The claim at the query \<open>fb\<close>, the target \<open>foo bar baz\<close> and the limit of no
  space: every query character occurs, and no complete chain passes the filter.
\<close>

theorem no_match_cases_witness:
  "matchFuzzy sampleTable (units ''fb'') (units ''foo bar baz'') [(of_char CHR '' '', 0)] = Inr None
   \<and> \<not> zeroOccurrences (toLowerCase sampleTable (units ''foo bar baz''))
         (toLowerCase sampleTable (units ''fb''))
   \<and> \<not> (\<exists>chain. completeChain
                    (occurrenceLists (toLowerCase sampleTable (units ''foo bar baz''))
                       (toLowerCase sampleTable (units ''fb''))) chain
                \<and> hasLessThanMaximumCharacters sampleTable
                    (toLowerCase sampleTable (units ''foo bar baz'')) chain [(of_char CHR '' '', 0)])"
proof -
  let ?t = "toLowerCase sampleTable (units ''foo bar baz'')"
  let ?q = "toLowerCase sampleTable (units ''fb'')"
  have run: "matchFuzzy sampleTable (units ''fb'') (units ''foo bar baz'') [(of_char CHR '' '', 0)] = Inr None"
    by code_simp
  have found: "\<not> zeroOccurrences ?t ?q" by code_simp
  have proper: "units ''fb'' \<noteq> []" "units ''foo bar baz'' \<noteq> []"
    "\<not> length (units ''foo bar baz'') < length (units ''fb'')" by code_simp+
  from no_match_cases [of sampleTable "units ''fb''" "units ''foo bar baz''" "[(of_char CHR '' '', 0)]"]
    run found proper
  have "\<forall>chain. completeChain (occurrenceLists ?t ?q) chain
                \<longrightarrow> \<not> hasLessThanMaximumCharacters sampleTable ?t chain [(of_char CHR '' '', 0)]"
    by blast
  with run found show ?thesis by blast
qed

section \<open>The combination enumerator\<close>

text \<open>
  Claim C3, as amended. For every non-empty family of occurrence lists the enumerator
  returns, for each position of the first list in order, the chain that starts there and
  takes from each later list the first position greater than the one taken before,
  provided that chain reaches full length. Every chain it returns takes one position
  from each list, in the order of the lists, and is strictly increasing. When the lists
  are ascending, for every complete strictly increasing chain it returns a chain with
  the same first position whose positions are each at most those of the given chain.
\<close>

theorem enumerator_greedy_chains:
  assumes "cp \<noteq> []"
  shows "\<exists>combinations.
           getPossibleCombinations cp [] 0 = Inr combinations
           \<and> combinations = filter (\<lambda>chain. length chain = length cp)
                               (map (\<lambda>occurence. extendChain (tl cp) [occurence]) (hd cp))
           \<and> (\<forall>chain \<in> set combinations. completeChain cp chain)
           \<and> ((\<forall>occurences \<in> set cp. sorted occurences) \<longrightarrow>
                (\<forall>chain. completeChain cp chain \<longrightarrow>
                   (\<exists>found \<in> set combinations.
                      hd found = hd chain \<and> list_all2 (\<le>) found chain)))"
  using assms getPossibleCombinations_greedy [OF assms]
    getPossibleCombinations_complete [OF assms]
    getPossibleCombinations_least [OF assms]
  by blast

text \<open>The amended claim at the occurrence lists of the query \<open>ab\<close> in \<open>abb\<close>.\<close>

theorem enumerator_greedy_chains_witness:
  "getPossibleCombinations [[0], [1, 2]] [] 0 = Inr [[0, 1]]
   \<and> completeChain [[0], [1, 2]] [0, 1]
   \<and> completeChain [[0], [1, 2]] [0, 2]
   \<and> (\<exists>found \<in> set [[0, 1]]. hd found = hd [0, 2::nat] \<and> list_all2 (\<le>) found [0, 2])"
  using enumerator_greedy_chains [of "[[0], [1, 2]]"]
  by (simp add: completeChain_def)

text \<open>
  Claim C3 as stated fails: for the occurrence lists of \<open>ab\<close> in \<open>abb\<close> the
  chain \<open>[0, 2]\<close> takes one position from each list and is strictly increasing, and
  the enumerator does not return it.
\<close>

theorem enumerator_misses_chain:
  "completeChain [[0], [1, 2]] [0, 2]
   \<and> getPossibleCombinations [[0], [1, 2]] [] 0 = Inr [[0, 1]]
   \<and> [0, 2] \<notin> set [[0, 1::nat]]"
  by (simp add: completeChain_def getPossibleCombinations_greedy)

section \<open>The occurrence indexer\<close>

text \<open>
  Claim C4. When \<open>matchFuzzy\<close> has built its occurrence lists, there is one list per
  character of the lowercased query; the list of query character \<open>0\<close> holds exactly
  the positions of
  the lowercased target, from \<open>0\<close> on, that carry the character, and the list of a
  query character \<open>i > 0\<close> holds exactly those at or after one more than the first
  position recorded for character \<open>i - 1\<close>; each list is in ascending order (it is a
  filtered interval of positions).
\<close>

theorem occurrence_lists_exact:
  assumes "occurencesLoop (toLowerCase table target) (toLowerCase table query) 0 []
           = Some occurencesPerChar"
  shows "length occurencesPerChar = length (toLowerCase table query)
         \<and> (\<forall>i<length (toLowerCase table query).
               occurencesPerChar ! i
               = filter (\<lambda>p. toLowerCase table target ! p = toLowerCase table query ! i)
                   [(if i = 0 then 0 else hd (occurencesPerChar ! (i - 1)) + 1)
                    ..<length (toLowerCase table target)])"
proof -
  let ?t = "toLowerCase table target" and ?q = "toLowerCase table query"
  from assms have nz: "\<not> zeroOccurrences ?t ?q"
    and opc: "occurencesPerChar = map (occurrenceList ?t ?q) [0..<length ?q]"
    by (auto simp: occurencesLoop_start split: if_splits)
  have each: "occurencesPerChar ! i
        = filter (\<lambda>p. ?t ! p = ?q ! i)
            [(if i = 0 then 0 else hd (occurencesPerChar ! (i - 1)) + 1)..<length ?t]"
    if i: "i < length ?q" for i
  proof (cases i)
    case 0
    with i opc show ?thesis by (simp add: occurrenceList_def)
  next
    case (Suc k)
    with i nz have "occurrenceList ?t ?q k \<noteq> []"
      by (auto simp: zeroOccurrences_def list_ex_iff)
    from occurrenceList_Suc [OF this] Suc i opc show ?thesis by simp
  qed
  show ?thesis
  proof (intro conjI allI impI)
    show "length occurencesPerChar = length ?q" using opc by simp
  next
    fix i assume "i < length ?q"
    then show "occurencesPerChar ! i
        = filter (\<lambda>p. ?t ! p = ?q ! i)
            [(if i = 0 then 0 else hd (occurencesPerChar ! (i - 1)) + 1)..<length ?t]"
      by (rule each)
  qed
qed

text \<open>The claim at the query \<open>OB\<close> and the target \<open>Foo Bar\<close>.\<close>

theorem occurrence_lists_exact_witness:
  "occurencesLoop (toLowerCase sampleTable (units ''Foo Bar''))
     (toLowerCase sampleTable (units ''OB'')) 0 [] = Some [[1, 2], [4]]
   \<and> [1, 2] = filter (\<lambda>p. toLowerCase sampleTable (units ''Foo Bar'') ! p
                            = toLowerCase sampleTable (units ''OB'') ! 0)
                [0..<length (toLowerCase sampleTable (units ''Foo Bar''))]
   \<and> [4] = filter (\<lambda>p. toLowerCase sampleTable (units ''Foo Bar'') ! p
                         = toLowerCase sampleTable (units ''OB'') ! 1)
              [hd [1, 2] + 1..<length (toLowerCase sampleTable (units ''Foo Bar''))]"
proof -
  let ?t = "toLowerCase sampleTable (units ''Foo Bar'')"
  let ?q = "toLowerCase sampleTable (units ''OB'')"
  have run: "occurencesLoop ?t ?q 0 [] = Some [[1, 2], [4]]" by code_simp
  have len: "length ?q = 2" by code_simp
  from occurrence_lists_exact [OF run] have each:
    "\<forall>i<length ?q. [[1, 2], [4]] ! i
       = filter (\<lambda>p. ?t ! p = ?q ! i)
           [(if i = 0 then 0 else hd ([[1, 2], [4]] ! (i - 1)) + 1)..<length ?t]" by blast
  from len have "0 < length ?q" "1 < length ?q" by simp_all
  from each [rule_format, OF this(1)] each [rule_format, OF this(2)] run
  show ?thesis by simp
qed

section \<open>The selection among the enumerated chains\<close>

text \<open>
  Claim C5. The chain \<open>matchFuzzy\<close> returns is one of the enumerated chains that
  pass the character-limit filter; no enumerated chain that passes the filter has
  fewer \<open>extraChars\<close>, and every one that passes and stands earlier in the iteration
  has strictly more, so among equals the earlier chain is returned. When the returned
  chain has \<open>extraChars = 0\<close>, the loop stops at it: whatever chains follow it, the
  outcome of the loop is the same.
\<close>

theorem selection_smallest_extraChars:
  assumes "matchFuzzy table query target characterLimit = Inr (Some result)"
  shows "\<exists>occurencesPerChar combinations before after.
           occurencesLoop (toLowerCase table target) (toLowerCase table query) 0 []
             = Some occurencesPerChar
           \<and> getPossibleCombinations occurencesPerChar [] 0 = Inr combinations
           \<and> combinations = before @ positions result # after
           \<and> hasLessThanMaximumCharacters table (toLowerCase table target) (positions result)
                characterLimit
           \<and> extraChars result = calculateExtraChars (positions result)
           \<and> (\<forall>other \<in> set combinations.
                 hasLessThanMaximumCharacters table (toLowerCase table target) other characterLimit
                 \<longrightarrow> extraChars result \<le> calculateExtraChars other)
           \<and> (\<forall>other \<in> set before.
                 hasLessThanMaximumCharacters table (toLowerCase table target) other characterLimit
                 \<longrightarrow> extraChars result < calculateExtraChars other)
           \<and> (extraChars result = 0 \<longrightarrow>
                (\<forall>rest. selectLoop table (toLowerCase table target) characterLimit
                          (before @ positions result # rest) None
                        = Some (0, positions result)))"
proof -
  let ?t = "toLowerCase table target" and ?q = "toLowerCase table query"
  let ?ok = "\<lambda>chain. hasLessThanMaximumCharacters table ?t chain characterLimit"
  from matchFuzzy_Some [OF assms] obtain occurencesPerChar combinations where
    ne: "query \<noteq> []"
    and opc: "occurencesLoop ?t ?q 0 [] = Some occurencesPerChar"
    and gpc: "getPossibleCombinations occurencesPerChar [] 0 = Inr combinations"
    and sel: "selectLoop table ?t characterLimit combinations None
              = Some (extraChars result, positions result)" by auto
  from ne have "?q \<noteq> []" by (simp add: toLowerCase_eq_Nil)
  with occurencesLoop_Some [OF opc] have ne': "occurencesPerChar \<noteq> []" by auto
  from selectLoop_Some [OF sel] obtain before after where
    split: "combinations = before @ positions result # after"
    and ok: "?ok (positions result)"
    and extra: "extraChars result = calculateExtraChars (positions result)"
    and earlier: "\<forall>other \<in> set before. ?ok other
                    \<longrightarrow> extraChars result < calculateExtraChars other"
    and later: "\<forall>other \<in> set after. ?ok other
                    \<longrightarrow> extraChars result = 0 \<or> extraChars result \<le> calculateExtraChars other"
    by auto
  have nonneg: "0 \<le> calculateExtraChars other" if "other \<in> set combinations" for other
    using getPossibleCombinations_complete [OF ne' gpc that]
    by (simp add: completeChain_def calculateExtraChars_nonneg)
  have least: "\<forall>other \<in> set combinations. ?ok other
                 \<longrightarrow> extraChars result \<le> calculateExtraChars other"
  proof (intro ballI impI)
    fix other assume mem: "other \<in> set combinations" and "?ok other"
    with split earlier later extra nonneg [OF mem]
    show "extraChars result \<le> calculateExtraChars other" by auto
  qed
  have stop: "selectLoop table ?t characterLimit (before @ positions result # rest) None
              = Some (0, positions result)" if zero: "extraChars result = 0" for rest
  proof (rule selectLoop_first_zero)
    show "\<forall>other \<in> set before. ?ok other \<longrightarrow> 0 < calculateExtraChars other"
      using earlier zero by simp
    show "\<forall>e c. (None :: (int \<times> nat list) option) = Some (e, c) \<longrightarrow> 0 < e" by simp
    show "?ok (positions result)" by (rule ok)
    show "calculateExtraChars (positions result) = 0" using extra zero by simp
  qed
  show ?thesis
    using opc gpc split ok extra least earlier stop by blast
qed

text \<open>
  The claim at the query \<open>ab\<close> and the target \<open>a-b ab\<close>, where the second
  enumerated chain is contiguous.
\<close>

theorem selection_smallest_extraChars_witness:
  "matchFuzzy sampleTable (units ''ab'') (units ''a-b ab'') []
     = Inr (Some \<lparr>offset = 4, positions = [4, 5], extraChars = 0, trailingChars = 0\<rparr>)
   \<and> getPossibleCombinations [[0, 4], [2, 5]] [] 0 = Inr ([[0, 2]] @ [4, 5] # [])
   \<and> (\<exists>before. (\<forall>rest. selectLoop sampleTable (toLowerCase sampleTable (units ''a-b ab'')) []
                          (before @ [4, 5] # rest) None = Some (0, [4, 5])))"
proof -
  let ?R = "\<lparr>offset = 4, positions = [4, 5], extraChars = 0, trailingChars = 0\<rparr>"
  let ?t = "toLowerCase sampleTable (units ''a-b ab'')"
  have run: "matchFuzzy sampleTable (units ''ab'') (units ''a-b ab'') [] = Inr (Some ?R)"
    by code_simp
  have enum: "getPossibleCombinations [[0, 4], [2, 5]] [] 0 = Inr ([[0, 2]] @ [4, 5] # [])"
    by code_simp
  from selection_smallest_extraChars [OF run] obtain before where
    "extraChars ?R = 0 \<longrightarrow>
       (\<forall>rest. selectLoop sampleTable ?t [] (before @ positions ?R # rest) None
               = Some (0, positions ?R))" by blast
  then have "\<forall>rest. selectLoop sampleTable ?t [] (before @ [4, 5] # rest) None
               = Some (0, [4, 5])" by simp
  with run enum show ?thesis by blast
qed

section \<open>The character-limit filter and the case of its keys\<close>

text \<open>
  For a limit mapping whose keys are their own lowercase form, the filter discards a
  chain exactly when some limited character occurs more often than its limit in the
  target from the first position of the chain up to, and without, the last.
\<close>

lemma limit_filter_lowercase_keys:
  assumes "\<forall>character \<in> fst ` set charLimits. toLowerCase table [character] = [character]"
    and "distinct (map fst charLimits)" and "foundChars \<noteq> []"
  shows "\<not> hasLessThanMaximumCharacters table target foundChars charLimits \<longleftrightarrow>
         (\<exists>(character, limit) \<in> set charLimits.
            limit < int (length (filter (\<lambda>c. c = character)
                      (substring target (hd foundChars) (last foundChars)))))"
proof -
  from assms(3) obtain x xs where shape: "foundChars = x # xs" by (cases foundChars) auto
  have "map_of charLimits character = Some limit \<longleftrightarrow> (character, limit) \<in> set charLimits"
    for character limit using assms(2) by (simp add: map_of_eq_Some_iff)
  with assms(1) shape show ?thesis
    unfolding hasLessThanMaximumCharacters_def limitLoop_iff
    by (fastforce simp: length_findOccurences split: option.splits list.splits)
qed

text \<open>The example of the specification: no chain of \<open>fb\<close> in \<open>foo bar baz\<close> is free of spaces.\<close>

lemma space_limit_example:
  "matchFuzzy sampleTable (units ''fb'') (units ''foo bar baz'') [(of_char CHR '' '', 0)]
   = Inr None"
  by code_simp

text \<open>
  Claim C6 says that the filter discards a chain exactly when some limited character
  occurs more often than its configured limit between the first position of the chain
  and its last. The source lowercases the key, counts the lowercased character, and
  then reads the limit under the lowercased key; for the key \<open>O\<close> with limit
  \<open>0\<close> there is no such entry. The chain \<open>[0, 4]\<close> of \<open>fb\<close> in
  \<open>foo bar\<close> spans \<open>foo \<close>, which holds the character twice, and the chain is
  kept and returned.
\<close>

theorem uppercase_limit_not_enforced:
  "substring (toLowerCase sampleTable (units ''foo bar'')) 0 4 = units ''foo ''
   \<and> toLowerCase sampleTable [of_char CHR ''O''] = [of_char CHR ''o'']
   \<and> length (findOccurences (substring (toLowerCase sampleTable (units ''foo bar'')) 0 4)
               (of_char CHR ''o'') 0 []) = 2
   \<and> hasLessThanMaximumCharacters sampleTable (toLowerCase sampleTable (units ''foo bar''))
       [0, 4] [(of_char CHR ''O'', 0)]
   \<and> matchFuzzy sampleTable (units ''fb'') (units ''foo bar'') [(of_char CHR ''O'', 0)]
       = Inr (Some \<lparr>offset = 0, positions = [0, 4], extraChars = 3, trailingChars = 2\<rparr>)"
  by code_simp

text \<open>
  Claim C7 says that the result does not depend on the case of a limit key. With the
  key \<open>o\<close> and limit \<open>0\<close> the query \<open>fb\<close> has no match in \<open>foo bar\<close>;
  with the key \<open>O\<close> and the same limit it has one.
\<close>

theorem limit_key_case_changes_result:
  "matchFuzzy sampleTable (units ''fb'') (units ''foo bar'') [(of_char CHR ''o'', 0)]
     = Inr None
   \<and> matchFuzzy sampleTable (units ''fb'') (units ''foo bar'') [(of_char CHR ''O'', 0)]
       = Inr (Some \<lparr>offset = 0, positions = [0, 4], extraChars = 3, trailingChars = 2\<rparr>)"
  by code_simp

section \<open>The comparator\<close>

text \<open>
  Claim C8. The comparator \<open>sort\<close> returns \<open>-1\<close>, \<open>0\<close> or \<open>1\<close>; it
  returns \<open>-1\<close> exactly when the first result is smaller in the lexicographic order
  of \<open>extraChars\<close>, then \<open>offset\<close>, then \<open>trailingChars\<close>, and \<open>0\<close>
  exactly when the three fields agree; swapping the arguments negates the result, and
  the ordering is transitive, so it is a total ordering function. A result with
  \<open>extraChars = 0\<close> and \<open>offset = 5\<close> ranks before one with \<open>extraChars = 1\<close>
  and \<open>offset = 0\<close>.
\<close>

theorem sort_total_lexicographic:
  "(sortResults a b = - 1 \<or> sortResults a b = 0 \<or> sortResults a b = 1)
   \<and> (sortResults a b = - 1 \<longleftrightarrow>
        extraChars a < extraChars b
        \<or> (extraChars a = extraChars b
            \<and> (offset a < offset b
                \<or> (offset a = offset b \<and> trailingChars a < trailingChars b))))
   \<and> (sortResults a b = 0 \<longleftrightarrow>
        extraChars a = extraChars b \<and> offset a = offset b
        \<and> trailingChars a = trailingChars b)
   \<and> sortResults b a = - sortResults a b
   \<and> (sortResults a b \<le> 0 \<and> sortResults b c \<le> 0 \<longrightarrow> sortResults a c \<le> 0)
   \<and> (extraChars a = 0 \<and> offset a = 5 \<and> extraChars b = 1 \<and> offset b = 0
        \<longrightarrow> sortResults a b = - 1)"
  unfolding sortResults_def by (auto split: if_splits)

theorem sort_total_lexicographic_witness:
  "sortResults \<lparr>offset = 5, positions = [5, 6], extraChars = 0, trailingChars = 3\<rparr>
               \<lparr>offset = 0, positions = [0, 2], extraChars = 1, trailingChars = 3\<rparr> = - 1
   \<and> sortResults \<lparr>offset = 0, positions = [0, 2], extraChars = 1, trailingChars = 3\<rparr>
                 \<lparr>offset = 0, positions = [0, 2], extraChars = 1, trailingChars = 4\<rparr> \<le> 0
   \<and> sortResults \<lparr>offset = 5, positions = [5, 6], extraChars = 0, trailingChars = 3\<rparr>
                 \<lparr>offset = 0, positions = [0, 2], extraChars = 1, trailingChars = 4\<rparr> \<le> 0"
  using sort_total_lexicographic
    [of "\<lparr>offset = 5, positions = [5, 6], extraChars = 0, trailingChars = 3\<rparr>"
        "\<lparr>offset = 0, positions = [0, 2], extraChars = 1, trailingChars = 3\<rparr>"
        "\<lparr>offset = 0, positions = [0, 2], extraChars = 1, trailingChars = 4\<rparr>"]
  by (simp add: sortResults_def)

section \<open>The fields of a result\<close>




section \<open>Self-match\<close>




end
